theory Spec2Isabelle
  imports Complex_Main
begin

section \<open>Fortigate IPsec VPN phase-2 tunnel check: shallow embedding\<close>

text \<open>
  The development embeds \<^verbatim>\<open>fortigate_ipsecvpn_tunnel.py\<close>: the byte formatter
  \<^verbatim>\<open>human_readable_bytes\<close>, the section parser, the discovery generator and the
  check generator.  Python exceptions are values of \<open>error\<close>; a generator is the list of
  the items it has yielded together with the exception that ended it, if any.
\<close>

subsection \<open>Exceptions and Python numbers\<close>

datatype error = KeyError | ValueError | OverflowError

text \<open>
  \<^verbatim>\<open>num_bytes\<close> is an \<^verbatim>\<open>int\<close> when the function is entered and a \<^verbatim>\<open>float\<close> after the
  first \<^verbatim>\<open>num_bytes /= 1024.0\<close>.  A float is represented by the rational number it
  denotes: every float that occurs here is finite.
\<close>

datatype py_number = PyInt int | PyFloat rat

fun bit_length :: "nat \<Rightarrow> nat" where
  "bit_length n = (if n = 0 then 0 else Suc (bit_length (n div 2)))"

declare bit_length.simps [simp del]

text \<open>
  Conversion of an \<^verbatim>\<open>int\<close> to a \<^verbatim>\<open>float\<close> (IEEE binary64): exact below \<open>2^53\<close> in
  magnitude, otherwise rounded to 53 significant bits, ties to even; a result of
  magnitude \<open>2^1024\<close> or more raises \<^verbatim>\<open>OverflowError\<close>.
\<close>

definition float_of_int :: "int \<Rightarrow> error + rat" where
  "float_of_int n =
     (let m = nat \<bar>n\<bar> in
      if m < 2 ^ 53 then Inr (of_int n)
      else
        let e = bit_length m - 53;
            q = m div 2 ^ e;
            r = m mod 2 ^ e;
            h = 2 ^ (e - 1);
            q' = (if h < r \<or> (r = h \<and> odd q) then q + 1 else q);
            v = q' * 2 ^ e
        in if 2 ^ 1024 \<le> v then Inl OverflowError
           else Inr (of_int (sgn n * int v)))"

text \<open>\<^verbatim>\<open>num_bytes < 1024.0\<close>: Python compares an int with a float exactly.\<close>

fun num_less_1024 :: "py_number \<Rightarrow> bool" where
  "num_less_1024 (PyInt n) = (n < 1024)"
| "num_less_1024 (PyFloat x) = (x < 1024)"

text \<open>
  \<^verbatim>\<open>num_bytes /= 1024.0\<close>: an int operand is converted to float first.  The division
  itself is exact, since it is only reached with a float of magnitude at least 1024
  and 1024 is a power of two.
\<close>

fun truediv_1024 :: "py_number \<Rightarrow> error + py_number" where
  "truediv_1024 (PyInt n) =
     (case float_of_int n of Inl e \<Rightarrow> Inl e | Inr x \<Rightarrow> Inr (PyFloat (x / 1024)))"
| "truediv_1024 (PyFloat x) = Inr (PyFloat (x / 1024))"

subsection \<open>The format specification \<^verbatim>\<open>.2f\<close>\<close>

definition digit_char :: "nat \<Rightarrow> char" where
  "digit_char d = ''0123456789'' ! (d mod 10)"

fun str_nat :: "nat \<Rightarrow> string" where
  "str_nat n = (if n < 10 then [digit_char n] else str_nat (n div 10) @ [digit_char (n mod 10)])"

declare str_nat.simps [simp del]

text \<open>Rounding to the nearest integer, ties to even, of a non-negative rational.\<close>

definition round_half_even :: "rat \<Rightarrow> nat" where
  "round_half_even x =
     (let q = nat \<lfloor>x\<rfloor>; f = x - of_nat q
      in if 1 / 2 < f \<or> (f = 1 / 2 \<and> odd q) then q + 1 else q)"

text \<open>
  Python prints the correctly rounded decimal of the float's exact value: sign, integer
  part, a point and two digits.
\<close>

definition format_2f_float :: "rat \<Rightarrow> string" where
  "format_2f_float x =
     (let k = round_half_even (\<bar>x\<bar> * 100)
      in (if x < 0 then ''-'' else '''') @ str_nat (k div 100) @ ''.''
           @ [digit_char (k mod 100 div 10), digit_char (k mod 10)])"

text \<open>An int formatted with \<^verbatim>\<open>.2f\<close> is converted to float first.\<close>

fun format_2f :: "py_number \<Rightarrow> error + string" where
  "format_2f (PyInt n) =
     (case float_of_int n of Inl e \<Rightarrow> Inl e | Inr x \<Rightarrow> Inr (format_2f_float x))"
| "format_2f (PyFloat x) = Inr (format_2f_float x)"

subsection \<open>\<^verbatim>\<open>human_readable_bytes\<close>\<close>

definition units :: "string list" where
  "units = [''bytes'', ''KB'', ''MB'', ''GB'', ''TB'']"

text \<open>
  The \<^verbatim>\<open>for unit in [...]\<close> loop.  When the list is exhausted the function body ends
  without a \<^verbatim>\<open>return\<close>, so the call evaluates to Python's \<^verbatim>\<open>None\<close>.
\<close>

fun human_readable_loop ::
  "string list \<Rightarrow> py_number \<Rightarrow> error + string option" where
  "human_readable_loop [] num_bytes = Inr None"
| "human_readable_loop (unit # rest) num_bytes =
     (if num_less_1024 num_bytes then
        (case format_2f num_bytes of
           Inl e \<Rightarrow> Inl e
         | Inr s \<Rightarrow> Inr (Some (s @ '' '' @ unit)))
      else
        (case truediv_1024 num_bytes of
           Inl e \<Rightarrow> Inl e
         | Inr num_bytes' \<Rightarrow> human_readable_loop rest num_bytes'))"

definition human_readable_bytes :: "int \<Rightarrow> error + string option" where
  "human_readable_bytes num_bytes = human_readable_loop units (PyInt num_bytes)"

subsection \<open>Python dictionaries\<close>

text \<open>
  A \<^verbatim>\<open>dict\<close> is the list of its items in insertion order, with distinct keys.
  \<^verbatim>\<open>d[k] = v\<close> replaces the value of a key that is present, in place, and appends a
  new key at the end; \<^verbatim>\<open>d.get(k)\<close> is \<open>None\<close> for an absent key.
\<close>

type_synonym ('k, 'v) dict = "('k \<times> 'v) list"

fun dict_set :: "'k \<Rightarrow> 'v \<Rightarrow> ('k, 'v) dict \<Rightarrow> ('k, 'v) dict" where
  "dict_set k v [] = [(k, v)]"
| "dict_set k v ((k', v') # d) =
     (if k' = k then (k, v) # d else (k', v') # dict_set k v d)"

definition dict_get :: "('k, 'v) dict \<Rightarrow> 'k \<Rightarrow> 'v option" where
  "dict_get d k = map_of d k"

definition dict_keys :: "('k, 'v) dict \<Rightarrow> 'k list" where
  "dict_keys d = map fst d"

subsection \<open>The parsed section\<close>

text \<open>
  The value stored for a tunnel is the dictionary
  \<^verbatim>\<open>{"in": int(ph2_in), "out": int(ph2_out), "state": ph2_state}\<close>: always the same
  three keys, hence a record.
\<close>

record tunnel_data =
  data_in :: int
  data_out :: int
  data_state :: string

type_synonym vpn_section = "(string, tunnel_data) dict"

text \<open>
  \<^verbatim>\<open>parse_fortigate_vpn_tunnel\<close>.  Python's built-in \<^verbatim>\<open>int\<close> on a string is the
  parameter \<open>py_int\<close>: it yields the integer, or \<open>None\<close> where \<^verbatim>\<open>int\<close> raises
  \<^verbatim>\<open>ValueError\<close>.  A row that does not unpack into exactly four fields raises
  \<^verbatim>\<open>ValueError\<close> as well.  \<^verbatim>\<open>int(ph2_in)\<close> is evaluated before \<^verbatim>\<open>int(ph2_out)\<close>.
\<close>

fun parse_loop ::
  "(string \<Rightarrow> int option) \<Rightarrow> string list list \<Rightarrow> vpn_section \<Rightarrow> error + vpn_section" where
  "parse_loop py_int [] parsed = Inr parsed"
| "parse_loop py_int (row # rest) parsed =
     (case row of
        [ph2_name, ph2_in, ph2_out, ph2_state] \<Rightarrow>
          (case py_int ph2_in of
             None \<Rightarrow> Inl ValueError
           | Some i \<Rightarrow>
               (case py_int ph2_out of
                  None \<Rightarrow> Inl ValueError
                | Some out \<Rightarrow>
                    parse_loop py_int rest
                      (dict_set ph2_name
                         \<lparr>data_in = i, data_out = out, data_state = ph2_state\<rparr> parsed)))
      | _ \<Rightarrow> Inl ValueError)"

definition parse_fortigate_vpn_tunnel ::
  "(string \<Rightarrow> int option) \<Rightarrow> string list list \<Rightarrow> error + vpn_section" where
  "parse_fortigate_vpn_tunnel py_int string_table = parse_loop py_int string_table []"

text \<open>
  An instance of \<open>py_int\<close> for concrete inputs: an optional sign followed by one or
  more ASCII digits, the fragment of the strings accepted by \<^verbatim>\<open>int\<close> in which SNMP
  counters are written.
\<close>

definition is_digit :: "char \<Rightarrow> bool" where
  "is_digit c = (c \<in> set ''0123456789'')"

definition digit_val :: "char \<Rightarrow> int" where
  "digit_val c = int (of_char c) - 48"

definition digits_int :: "string \<Rightarrow> int option" where
  "digits_int s =
     (if s \<noteq> [] \<and> list_all is_digit s
      then Some (foldl (\<lambda>acc c. 10 * acc + digit_val c) 0 s) else None)"

fun ascii_int :: "string \<Rightarrow> int option" where
  "ascii_int [] = None"
| "ascii_int (c # s) =
     (if c = CHR ''-'' then map_option uminus (digits_int s)
      else if c = CHR ''+'' then digits_int s
      else digits_int (c # s))"

text \<open>
  A row is well formed when it has exactly four fields and \<^verbatim>\<open>int\<close> accepts the second
  and the third; the status field is not looked at.
\<close>

fun well_formed_row :: "(string \<Rightarrow> int option) \<Rightarrow> string list \<Rightarrow> bool" where
  "well_formed_row py_int [ph2_name, ph2_in, ph2_out, ph2_state] =
     (py_int ph2_in \<noteq> None \<and> py_int ph2_out \<noteq> None)"
| "well_formed_row py_int row = False"

subsection \<open>Discovery\<close>

datatype service = Service string

text \<open>The generator yields one \<^verbatim>\<open>Service\<close> per key, in the order of the dictionary.\<close>

definition discover_fortigate_vpn_tunnel :: "vpn_section \<Rightarrow> service list" where
  "discover_fortigate_vpn_tunnel section =
     map (\<lambda>tunnel_name. Service tunnel_name) (dict_keys section)"

subsection \<open>The check\<close>

datatype state = OK | WARN | CRIT | UNKNOWN

datatype check_item = Result state string | Metric string int

definition fortigate_ipsecvpn_tunnel_ent_status_map :: "(string, string) dict" where
  "fortigate_ipsecvpn_tunnel_ent_status_map = [(''1'', ''down''), (''2'', ''up'')]"

definition state_map :: "(string, state) dict" where
  "state_map = [(''up'', OK), (''down'', CRIT)]"

text \<open>
  Interpolation of the value of \<^verbatim>\<open>human_readable_bytes\<close> into the f-string: a string
  is inserted as it is, \<^verbatim>\<open>None\<close> as the text \<^verbatim>\<open>None\<close>.
\<close>

fun str_optional :: "string option \<Rightarrow> string" where
  "str_optional (Some s) = s"
| "str_optional None = ''None''"

definition missing_summary :: "string \<Rightarrow> string" where
  "missing_summary item = ''Tunnel '' @ [CHR 0x27] @ item @ [CHR 0x27] @ '' is missing''"

definition status_summary :: "string \<Rightarrow> string option \<Rightarrow> string option \<Rightarrow> string" where
  "status_summary label hin hout =
     ''Status: '' @ label @ '', In: '' @ str_optional hin @ '', Out: '' @ str_optional hout"

text \<open>
  \<^verbatim>\<open>check_fortigate_vpn_tunnel\<close> is a generator.  Its value is the list of the items
  yielded so far and the exception that ended it (\<open>None\<close> when it returned).  The
  section value of a present tunnel is a three-key dictionary, which is truthy, so
  \<^verbatim>\<open>if not data\<close> holds exactly when \<^verbatim>\<open>section.get(item)\<close> is \<^verbatim>\<open>None\<close>.  The subscript
  \<^verbatim>\<open>fortigate_ipsecvpn_tunnel_ent_status_map[data["state"]]\<close> raises \<^verbatim>\<open>KeyError\<close> on
  an absent key; the f-string repeats this subscript, with the same label.  The
  arguments of the first \<^verbatim>\<open>Result\<close>, the two calls of \<^verbatim>\<open>human_readable_bytes\<close> among
  them, are evaluated before it is yielded.  \<^verbatim>\<open>Result\<close> and \<^verbatim>\<open>Metric\<close> of the Checkmk
  API are constructors of data here.
\<close>

definition check_fortigate_vpn_tunnel ::
  "string \<Rightarrow> vpn_section \<Rightarrow> check_item list \<times> error option" where
  "check_fortigate_vpn_tunnel item section =
     (case dict_get section item of
        None \<Rightarrow> ([Result CRIT (missing_summary item)], None)
      | Some data \<Rightarrow>
          (case dict_get fortigate_ipsecvpn_tunnel_ent_status_map (data_state data) of
             None \<Rightarrow> ([], Some KeyError)
           | Some label \<Rightarrow>
               (let state = (case dict_get state_map label of
                               Some s \<Rightarrow> s | None \<Rightarrow> UNKNOWN);
                    ph2_in = data_in data;
                    ph2_out = data_out data
                in case human_readable_bytes ph2_in of
                     Inl e \<Rightarrow> ([], Some e)
                   | Inr hin \<Rightarrow>
                       (case human_readable_bytes ph2_out of
                          Inl e \<Rightarrow> ([], Some e)
                        | Inr hout \<Rightarrow>
                            ([Result state (status_summary label hin hout),
                              Metric ''in_octets'' ph2_in,
                              Metric ''out_octets'' ph2_out], None)))))"

fun is_metric :: "check_item \<Rightarrow> bool" where
  "is_metric (Metric name v) = True"
| "is_metric (Result s summary) = False"

section \<open>Auxiliary facts\<close>

lemma floor_rat_numeral_divide:
  "\<lfloor>(numeral a :: rat) / numeral b\<rfloor> = numeral a div numeral b"
  by (metis floor_divide_of_int_eq of_int_numeral)

lemmas hrb_eval = human_readable_bytes_def units_def float_of_int_def format_2f_float_def
  round_half_even_def str_nat.simps digit_char_def Let_def floor_rat_numeral_divide

lemma status_map_lookup:
  "dict_get fortigate_ipsecvpn_tunnel_ent_status_map c =
     (if c = ''1'' then Some ''down'' else if c = ''2'' then Some ''up'' else None)"
  by (simp add: dict_get_def fortigate_ipsecvpn_tunnel_ent_status_map_def)

lemma state_map_lookup:
  "dict_get state_map l =
     (if l = ''up'' then Some OK else if l = ''down'' then Some CRIT else None)"
  by (simp add: dict_get_def state_map_def)

text \<open>The check with its local variables substituted.\<close>

lemma check_cases:
  "check_fortigate_vpn_tunnel item section =
     (case dict_get section item of
        None \<Rightarrow> ([Result CRIT (missing_summary item)], None)
      | Some data \<Rightarrow>
          (case dict_get fortigate_ipsecvpn_tunnel_ent_status_map (data_state data) of
             None \<Rightarrow> ([], Some KeyError)
           | Some label \<Rightarrow>
               (case human_readable_bytes (data_in data) of
                  Inl e \<Rightarrow> ([], Some e)
                | Inr hin \<Rightarrow>
                    (case human_readable_bytes (data_out data) of
                       Inl e \<Rightarrow> ([], Some e)
                     | Inr hout \<Rightarrow>
                         ([Result (case dict_get state_map label of
                                     Some s \<Rightarrow> s | None \<Rightarrow> UNKNOWN)
                             (status_summary label hin hout),
                           Metric ''in_octets'' (data_in data),
                           Metric ''out_octets'' (data_out data)], None)))))"
  by (simp add: check_fortigate_vpn_tunnel_def Let_def split: option.splits)

text \<open>An exception of the formatter on the inbound counter ends the generator.\<close>

lemma check_raises:
  assumes "dict_get section item = Some data"
    and "dict_get fortigate_ipsecvpn_tunnel_ent_status_map (data_state data) = Some label"
    and "human_readable_bytes (data_in data) = Inl e"
  shows "check_fortigate_vpn_tunnel item section = ([], Some e)"
  using assms by (simp add: check_cases)

section \<open>The byte formatter\<close>

text \<open>The bit length brackets a positive number between two powers of two.\<close>

lemma bit_length_bounds:
  "0 < m \<Longrightarrow> 2 ^ (bit_length m - 1) \<le> m \<and> m < 2 ^ bit_length m"
proof (induction m rule: bit_length.induct)
  case (1 n)
  show ?case
  proof (cases "n div 2 = 0")
    case True
    with "1.prems" have "n = 1" by auto
    then show ?thesis
      by (simp add: bit_length.simps)
  next
    case False
    then have pos: "0 < n div 2" by simp
    from "1.prems" have n0: "n \<noteq> 0" by simp
    from "1.IH" [OF n0 pos] have
      lo: "2 ^ (bit_length (n div 2) - 1) \<le> n div 2" and
      hi: "n div 2 < 2 ^ bit_length (n div 2)"
      by simp_all
    have len: "bit_length n = Suc (bit_length (n div 2))"
      using n0 by (subst bit_length.simps) simp
    from pos have "0 < bit_length (n div 2)"
      by (subst bit_length.simps) simp
    then have "(2::nat) ^ bit_length (n div 2) = 2 * 2 ^ (bit_length (n div 2) - 1)"
      by (cases "bit_length (n div 2)") simp_all
    with lo have "2 ^ bit_length (n div 2) \<le> 2 * (n div 2)"
      by simp
    also have "\<dots> \<le> n" by simp
    finally have lower: "2 ^ (bit_length n - 1) \<le> n"
      by (simp add: len)
    from hi have "n < 2 * 2 ^ bit_length (n div 2)"
      by linarith
    then have upper: "n < 2 ^ bit_length n"
      by (simp add: len)
    from lower upper show ?thesis ..
  qed
qed

text \<open>A conversion that does not overflow does not round below \<open>2^53\<close>.\<close>

lemma float_of_int_large:
  assumes "2 ^ 53 \<le> n" and "float_of_int n = Inr x"
  shows "2 ^ 53 \<le> x"
proof -
  define m where "m = nat \<bar>n\<bar>"
  define e where "e = bit_length m - 53"
  define q where "q = m div 2 ^ e"
  define r where "r = m mod 2 ^ e"
  define q' where "q' = (if 2 ^ (e - 1) < r \<or> (r = 2 ^ (e - 1) \<and> odd q) then q + 1 else q)"
  from assms(1) have m: "2 ^ 53 \<le> m" and npos: "0 < n"
    by (simp_all add: m_def le_nat_iff)
  then have mpos: "0 < m"
    by (meson less_le_trans zero_less_numeral zero_less_power)
  from bit_length_bounds [OF mpos] have
    lo: "2 ^ (bit_length m - 1) \<le> m" and hi: "m < 2 ^ bit_length m"
    by simp_all
  have len: "53 < bit_length m"
  proof (rule power_less_imp_less_exp)
    show "(1::nat) < 2" by simp
    show "(2::nat) ^ 53 < 2 ^ bit_length m" using m hi by linarith
  qed
  then have split: "bit_length m - 1 = 52 + e"
    by (simp add: e_def)
  from lo have "(2::nat) ^ (52 + e) \<le> m"
    by (simp only: split)
  then have "(2::nat) ^ 52 * 2 ^ e \<le> m"
    by (simp only: power_add)
  then have "2 ^ 52 \<le> q"
    unfolding q_def by (simp add: less_eq_div_iff_mult_less_eq)
  then have "2 ^ 52 * 2 ^ e \<le> q' * 2 ^ e"
    by (simp add: q'_def)
  moreover have "(2::nat) ^ 53 \<le> 2 ^ 52 * 2 ^ e"
  proof -
    from len have "1 \<le> e" by (simp add: e_def)
    then have "(2::nat) ^ 1 \<le> 2 ^ e"
      by (rule power_increasing) simp
    then show ?thesis by simp
  qed
  ultimately have v: "2 ^ 53 \<le> q' * 2 ^ e"
    by linarith
  have conv: "float_of_int n =
      (if m < 2 ^ 53 then Inr (of_int n)
       else if 2 ^ 1024 \<le> q' * 2 ^ e then Inl OverflowError
       else Inr (of_int (sgn n * int (q' * 2 ^ e))))"
    unfolding float_of_int_def Let_def q'_def q_def r_def e_def m_def ..
  from m have "\<not> m < 2 ^ 53"
    by simp
  with conv have conv': "float_of_int n =
      (if 2 ^ 1024 \<le> q' * 2 ^ e then Inl OverflowError
       else Inr (of_int (sgn n * int (q' * 2 ^ e))))"
    by (simp only: if_False)
  have "x = of_int (sgn n * int (q' * 2 ^ e))"
  proof (cases "2 ^ 1024 \<le> q' * 2 ^ e")
    case True
    with conv' have "float_of_int n = Inl OverflowError"
      by (simp only: if_True)
    with assms(2) show ?thesis
      by simp
  next
    case False
    with conv' have "float_of_int n = Inr (of_int (sgn n * int (q' * 2 ^ e)))"
      by (simp only: if_False)
    with assms(2) show ?thesis
      by (simp only: sum.inject)
  qed
  with npos have "x = of_int (int (q' * 2 ^ e))"
    by simp
  moreover from v have "(2::int) ^ 53 \<le> int (q' * 2 ^ e)"
    by (metis of_nat_le_iff of_nat_numeral of_nat_power)
  then have "(2::rat) ^ 53 \<le> of_int (int (q' * 2 ^ e))"
    by (metis of_int_le_iff of_int_numeral of_int_power)
  ultimately show ?thesis by simp
qed

lemma human_readable_loop_large:
  assumes "1024 ^ 5 \<le> x"
  shows "human_readable_loop [''KB'', ''MB'', ''GB'', ''TB''] (PyFloat (x / 1024)) = Inr None"
proof -
  from assms have "1024 \<le> x / 1024" "1024 \<le> x / 1024 / 1024"
    "1024 \<le> x / 1024 / 1024 / 1024" "1024 \<le> x / 1024 / 1024 / 1024 / 1024"
    by simp_all
  then show ?thesis
    by (simp add: not_less [symmetric])
qed

text \<open>An integer of magnitude below \<open>2^1023\<close> is converted without overflow.\<close>

lemma float_of_int_no_overflow:
  assumes "\<bar>n\<bar> < 2 ^ 1023"
  shows "\<exists>x. float_of_int n = Inr x"
proof -
  define m where "m = nat \<bar>n\<bar>"
  define e where "e = bit_length m - 53"
  define q where "q = m div 2 ^ e"
  define r where "r = m mod 2 ^ e"
  define q' where "q' = (if 2 ^ (e - 1) < r \<or> (r = 2 ^ (e - 1) \<and> odd q) then q + 1 else q)"
  have conv: "float_of_int n =
      (if m < 2 ^ 53 then Inr (of_int n)
       else if 2 ^ 1024 \<le> q' * 2 ^ e then Inl OverflowError
       else Inr (of_int (sgn n * int (q' * 2 ^ e))))"
    unfolding float_of_int_def Let_def q'_def q_def r_def e_def m_def ..
  show ?thesis
  proof (cases "m < 2 ^ 53")
    case True
    with conv show ?thesis by (simp only: if_True) blast
  next
    case False
    then have mpos: "0 < m" by simp
    from bit_length_bounds [OF mpos] have
      lo: "2 ^ (bit_length m - 1) \<le> m" and hi: "m < 2 ^ bit_length m"
      by simp_all
    from assms have "int m < 2 ^ 1023"
      by (simp add: m_def)
    then have m: "m < 2 ^ 1023"
      by (metis of_nat_less_iff of_nat_numeral of_nat_power)
    have "bit_length m - 1 < 1023"
    proof (rule power_less_imp_less_exp)
      show "(1::nat) < 2" by simp
      show "(2::nat) ^ (bit_length m - 1) < 2 ^ 1023" using lo m by linarith
    qed
    then have len: "bit_length m \<le> 1023" by simp
    have len53: "53 < bit_length m"
    proof (rule power_less_imp_less_exp)
      show "(1::nat) < 2" by simp
      from False have "(2::nat) ^ 53 \<le> m" by simp
      with hi show "(2::nat) ^ 53 < 2 ^ bit_length m" by linarith
    qed
    then have split: "bit_length m = 53 + e"
      by (simp add: e_def)
    from hi have "m < 2 ^ 53 * 2 ^ e"
      by (simp only: split power_add)
    then have "q < 2 ^ 53"
      unfolding q_def by (simp add: less_mult_imp_div_less)
    then have "q' \<le> 2 ^ 53"
      by (simp add: q'_def)
    then have "q' * 2 ^ e \<le> 2 ^ 53 * 2 ^ e"
      by (rule mult_le_mono1)
    also have "\<dots> = 2 ^ bit_length m"
      by (simp only: split power_add)
    also have "\<dots> \<le> 2 ^ 1023"
      using len by (intro power_increasing) simp_all
    also have "\<dots> < (2::nat) ^ 1024"
      by (intro power_strict_increasing) simp_all
    finally have "\<not> 2 ^ 1024 \<le> q' * 2 ^ e"
      by simp
    with conv False show ?thesis
      by (simp only: if_False) blast
  qed
qed

text \<open>On a float the loop raises nothing; the function raises only in the conversion.\<close>

lemma human_readable_loop_float:
  "\<exists>r. human_readable_loop us (PyFloat x) = Inr r"
  by (induction us arbitrary: x) simp_all

lemma human_readable_bytes_returns:
  assumes "\<bar>n\<bar> < 2 ^ 1023"
  shows "\<exists>r. human_readable_bytes n = Inr r"
proof -
  from float_of_int_no_overflow [OF assms] obtain x where x: "float_of_int n = Inr x" ..
  from human_readable_loop_float obtain r where
    "human_readable_loop [''KB'', ''MB'', ''GB'', ''TB''] (PyFloat (x / 1024)) = Inr r" ..
  with x show ?thesis
    by (simp add: human_readable_bytes_def units_def)
qed

lemma float_of_int_error: "float_of_int n = Inl e \<Longrightarrow> e = OverflowError"
  by (auto simp: float_of_int_def Let_def split: if_splits)

text \<open>
  From 1024 TB on, \<^verbatim>\<open>human_readable_bytes\<close> never returns a string: it returns
  \<^verbatim>\<open>None\<close>, or raises when the integer does not fit a float.
\<close>

lemma human_readable_bytes_from_1024_TB:
  assumes "1024 ^ 5 \<le> n"
  shows "human_readable_bytes n = Inr None \<or> human_readable_bytes n = Inl OverflowError"
proof (cases "float_of_int n")
  case (Inl e)
  with assms float_of_int_error [OF Inl] show ?thesis
    by (simp add: human_readable_bytes_def units_def)
next
  case (Inr x)
  have "1024 ^ 5 \<le> x"
  proof (cases "n < 2 ^ 53")
    case True
    with assms have "nat \<bar>n\<bar> < 2 ^ 53"
      by simp
    then have "float_of_int n = Inr (of_int n)"
      by (simp add: float_of_int_def)
    with Inr have "x = of_int n"
      by simp
    moreover from assms have "(1024::rat) ^ 5 \<le> of_int n"
      by (metis of_int_le_iff of_int_numeral of_int_power)
    ultimately show ?thesis by simp
  next
    case False
    then have "2 ^ 53 \<le> n" by simp
    from float_of_int_large [OF this Inr] show ?thesis by simp
  qed
  from human_readable_loop_large [OF this] assms Inr show ?thesis
    by (simp add: human_readable_bytes_def units_def)
qed

lemma human_readable_bytes_below_1024_TB:
  assumes "0 \<le> n" and "n < 1024 ^ 5"
  shows "\<exists>s. human_readable_bytes n = Inr (Some s)"
proof -
  from assms have small: "nat \<bar>n\<bar> < 2 ^ 53"
    by simp
  then have conv: "float_of_int n = Inr (of_int n)"
    by (simp add: float_of_int_def)
  from assms(2) have "rat_of_int n < 1024 ^ 5"
    by (metis of_int_less_iff of_int_numeral of_int_power)
  then have last: "rat_of_int n / 1024 / 1024 / 1024 / 1024 < 1024"
    by simp
  show ?thesis
    using last by (simp add: human_readable_bytes_def units_def conv)
qed

text \<open>The conversion overflows exactly from \<open>2^1024 - 2^970\<close> on.\<close>

lemma float_of_int_overflow_iff:
  "float_of_int n = Inl OverflowError \<longleftrightarrow> 2 ^ 1024 - 2 ^ 970 \<le> \<bar>n\<bar>"
proof -
  define m where "m = nat \<bar>n\<bar>"
  define e where "e = bit_length m - 53"
  define q where "q = m div 2 ^ e"
  define r where "r = m mod 2 ^ e"
  define q' where "q' = (if 2 ^ (e - 1) < r \<or> (r = 2 ^ (e - 1) \<and> odd q) then q + 1 else q)"
  have conv: "float_of_int n =
      (if m < 2 ^ 53 then Inr (of_int n)
       else if 2 ^ 1024 \<le> q' * 2 ^ e then Inl OverflowError
       else Inr (of_int (sgn n * int (q' * 2 ^ e))))"
    unfolding float_of_int_def Let_def q'_def q_def r_def e_def m_def ..
  have abs_m: "\<bar>n\<bar> = int m"
    by (simp add: m_def)
  have goal_m: "(2 ^ 1024 - 2 ^ 970 \<le> \<bar>n\<bar>) \<longleftrightarrow> (2 ^ 1024 - 2 ^ 970 \<le> m)"
    unfolding abs_m by (simp add: le_nat_iff [symmetric] nat_diff_distrib nat_power_eq)
  show ?thesis
  proof (cases "m < 2 ^ 53")
    case True
    then have "\<not> 2 ^ 1024 - 2 ^ 970 \<le> m"
      by simp
    with conv True show ?thesis
      unfolding goal_m by simp
  next
    case False
    then have mpos: "0 < m" by simp
    from bit_length_bounds [OF mpos] have
      lo: "2 ^ (bit_length m - 1) \<le> m" and hi: "m < 2 ^ bit_length m"
      by simp_all
    have len53: "53 < bit_length m"
    proof (rule power_less_imp_less_exp)
      show "(1::nat) < 2" by simp
      from False have "(2::nat) ^ 53 \<le> m" by simp
      with hi show "(2::nat) ^ 53 < 2 ^ bit_length m" by linarith
    qed
    then have len: "bit_length m = 53 + e" and len1: "bit_length m - 1 = 52 + e"
      and epos: "0 < e"
      by (simp_all add: e_def)
    from lo have mlo: "2 ^ 52 * 2 ^ e \<le> m"
      by (simp only: len1 power_add)
    from hi have mhi: "m < 2 ^ 53 * 2 ^ e"
      by (simp only: len power_add)
    from mlo have qlo: "2 ^ 52 \<le> q"
      unfolding q_def by (simp add: less_eq_div_iff_mult_less_eq)
    from mhi have qhi: "q < 2 ^ 53"
      unfolding q_def by (simp add: less_mult_imp_div_less)
    have decomp: "m = q * 2 ^ e + r"
      unfolding q_def r_def by (rule div_mult_mod_eq [symmetric])
    have rhi: "r < 2 ^ e"
      by (simp add: r_def)
    have q'lo: "q \<le> q'" and q'hi: "q' \<le> q + 1"
      by (simp_all add: q'_def)
    from conv False have ovf: "float_of_int n = Inl OverflowError \<longleftrightarrow> 2 ^ 1024 \<le> q' * 2 ^ e"
      by simp
    consider (small) "e \<le> 970" | (mid) "e = 971" | (big) "972 \<le> e"
      by linarith
    then have "2 ^ 1024 \<le> q' * 2 ^ e \<longleftrightarrow> 2 ^ 1024 - 2 ^ 970 \<le> m"
    proof cases
      case small
      then have pe: "(2::nat) ^ e \<le> 2 ^ 970"
        by (intro power_increasing) simp_all
      from q'hi qhi have "q' \<le> 2 ^ 53" by simp
      then have "q' * 2 ^ e \<le> 2 ^ 53 * 2 ^ 970"
        using pe by (rule mult_le_mono)
      then have a: "\<not> 2 ^ 1024 \<le> q' * 2 ^ e"
        by simp
      from mhi pe have "m < 2 ^ 53 * 2 ^ 970"
        by (meson less_le_trans mult_le_mono2)
      then have b: "\<not> 2 ^ 1024 - 2 ^ 970 \<le> m"
        by simp
      from a b show ?thesis by simp
    next
      case big
      then have pe: "(2::nat) ^ 972 \<le> 2 ^ e"
        by (intro power_increasing) simp_all
      from qlo q'lo have "2 ^ 52 \<le> q'" by simp
      then have "2 ^ 52 * 2 ^ 972 \<le> q' * 2 ^ e"
        using pe by (rule mult_le_mono)
      then have a: "2 ^ 1024 \<le> q' * 2 ^ e"
        by simp
      from pe have "(2::nat) ^ 52 * 2 ^ 972 \<le> 2 ^ 52 * 2 ^ e"
        by (rule mult_le_mono2)
      with mlo have "(2::nat) ^ 52 * 2 ^ 972 \<le> m"
        by linarith
      then have b: "2 ^ 1024 - 2 ^ 970 \<le> m"
        by simp
      from a b show ?thesis by simp
    next
      case mid
      have odd_top: "odd ((2::nat) ^ 53 - 1)"
        by simp
      show ?thesis
      proof
        assume "2 ^ 1024 \<le> q' * 2 ^ e"
        then have "2 ^ 53 \<le> q'"
          by (simp add: mid)
        with q'hi qhi have top: "q = 2 ^ 53 - 1" and up: "q' = q + 1"
          by simp_all
        from up have "2 ^ 970 < r \<or> (r = 2 ^ 970 \<and> odd q)"
          by (simp add: q'_def mid split: if_splits)
        then have "2 ^ 970 \<le> r"
          by auto
        with decomp top show "2 ^ 1024 - 2 ^ 970 \<le> m"
          by (simp add: mid)
      next
        assume big_m: "2 ^ 1024 - 2 ^ 970 \<le> m"
        have top: "q = 2 ^ 53 - 1"
        proof (rule ccontr)
          assume "q \<noteq> 2 ^ 53 - 1"
          with qhi have "q + 1 \<le> 2 ^ 53 - 1"
            by simp
          then have "(q + 1) * 2 ^ 971 \<le> (2 ^ 53 - 1) * 2 ^ 971"
            by (rule mult_le_mono1)
          moreover from decomp rhi have "m < (q + 1) * 2 ^ 971"
            by (simp add: mid)
          ultimately have "m < (2 ^ 53 - 1) * 2 ^ 971"
            by linarith
          with big_m show False
            by simp
        qed
        with decomp big_m have "2 ^ 970 \<le> r"
          by (simp add: mid)
        with top odd_top have "q' = q + 1"
          by (auto simp: q'_def mid)
        with top show "2 ^ 1024 \<le> q' * 2 ^ e"
          by (simp add: mid)
      qed
    qed
    with ovf show ?thesis
      unfolding goal_m by simp
  qed
qed

text \<open>\<^verbatim>\<open>human_readable_bytes\<close> raises exactly when the conversion of its argument does.\<close>

lemma human_readable_bytes_Inl_iff:
  "human_readable_bytes n = Inl e \<longleftrightarrow> float_of_int n = Inl e"
proof (cases "float_of_int n")
  case (Inl e')
  then show ?thesis
    by (simp add: human_readable_bytes_def units_def)
next
  case (Inr x)
  from human_readable_loop_float obtain r where
    "human_readable_loop [''KB'', ''MB'', ''GB'', ''TB''] (PyFloat (x / 1024)) = Inr r" ..
  with Inr show ?thesis
    by (simp add: human_readable_bytes_def units_def)
qed

lemma human_readable_bytes_raises_iff:
  "(\<exists>e. human_readable_bytes n = Inl e) \<longleftrightarrow> 2 ^ 1024 - 2 ^ 970 \<le> \<bar>n\<bar>"
proof
  assume "\<exists>e. human_readable_bytes n = Inl e"
  then obtain e where "float_of_int n = Inl e"
    unfolding human_readable_bytes_Inl_iff ..
  with float_of_int_error [OF this] have "float_of_int n = Inl OverflowError"
    by simp
  then show "2 ^ 1024 - 2 ^ 970 \<le> \<bar>n\<bar>"
    unfolding float_of_int_overflow_iff .
next
  assume "2 ^ 1024 - 2 ^ 970 \<le> \<bar>n\<bar>"
  then have "float_of_int n = Inl OverflowError"
    unfolding float_of_int_overflow_iff .
  then have "human_readable_bytes n = Inl OverflowError"
    unfolding human_readable_bytes_Inl_iff .
  then show "\<exists>e. human_readable_bytes n = Inl e" ..
qed

lemma human_readable_bytes_in_range:
  assumes "\<bar>n\<bar> < 2 ^ 1024 - 2 ^ 970"
  obtains h where "human_readable_bytes n = Inr h"
proof -
  from assms have "\<not> (\<exists>e. human_readable_bytes n = Inl e)"
    unfolding human_readable_bytes_raises_iff by simp
  then show ?thesis
    using that by (cases "human_readable_bytes n") auto
qed

lemma human_readable_bytes_out_of_range:
  assumes "\<not> \<bar>n\<bar> < 2 ^ 1024 - 2 ^ 970"
  shows "human_readable_bytes n = Inl OverflowError"
proof -
  from assms have "2 ^ 1024 - 2 ^ 970 \<le> \<bar>n\<bar>"
    by simp
  then have "float_of_int n = Inl OverflowError"
    unfolding float_of_int_overflow_iff .
  then show ?thesis
    unfolding human_readable_bytes_Inl_iff .
qed

text \<open>
  Claim C9.  \<^verbatim>\<open>human_readable_bytes\<close> is exact at the 1024 boundaries and at zero:
  1048576 renders as \<^verbatim>\<open>1.00 MB\<close>, 1023 as \<^verbatim>\<open>1023.00 bytes\<close>, 1024 as \<^verbatim>\<open>1.00 KB\<close>
  and 0 as \<^verbatim>\<open>0.00 bytes\<close>.
\<close>

theorem human_readable_bytes_boundaries:
  "human_readable_bytes 1048576 = Inr (Some ''1.00 MB'') \<and>
   human_readable_bytes 1023 = Inr (Some ''1023.00 bytes'') \<and>
   human_readable_bytes 1024 = Inr (Some ''1.00 KB'') \<and>
   human_readable_bytes 0 = Inr (Some ''0.00 bytes'')"
  by (simp add: hrb_eval)

text \<open>
  Claim C1.  The claim is that every non-negative input is rendered, an input of
  1024 TB or more as a number labelled TB.  The loop divides once more after the TB
  test has failed and then runs off the end of the unit list: at \<open>1024 ^ 5\<close> bytes
  (1024 TB) the function returns \<^verbatim>\<open>None\<close> and no string.  By
  \<open>human_readable_bytes_from_1024_TB\<close> the same holds of every larger input that fits a
  float, and by \<open>human_readable_bytes_below_1024_TB\<close> every input from 0 up to that
  bound is rendered.
\<close>

theorem human_readable_bytes_1024_TB_is_None:
  "human_readable_bytes (1024 ^ 5) = Inr None"
  by (simp add: hrb_eval)

section \<open>The check\<close>

text \<open>
  Claim C2.  When the snapshot contains the item and the raw status code of its
  record is not a key of the status vocabulary \<open>{"1", "2"}\<close>, the evaluation ends with
  \<^verbatim>\<open>KeyError\<close>; nothing is yielded, in particular no \<^verbatim>\<open>UNKNOWN\<close> result.
\<close>

theorem unrecognized_status_code_raises_KeyError:
  assumes "dict_get section item = Some data"
    and "data_state data \<notin> {''1'', ''2''}"
  shows "check_fortigate_vpn_tunnel item section = ([], Some KeyError)"
  using assms by (simp add: check_fortigate_vpn_tunnel_def status_map_lookup)

theorem unrecognized_status_code_raises_KeyError_witness:
  "dict_get [(''vpn1'', \<lparr>data_in = 10, data_out = 20, data_state = ''3''\<rparr>)] ''vpn1''
     = Some \<lparr>data_in = 10, data_out = 20, data_state = ''3''\<rparr> \<and>
   data_state \<lparr>data_in = 10, data_out = 20, data_state = ''3''\<rparr> \<notin> {''1'', ''2''} \<and>
   check_fortigate_vpn_tunnel ''vpn1''
     [(''vpn1'', \<lparr>data_in = 10, data_out = 20, data_state = ''3''\<rparr>)] = ([], Some KeyError)"
proof -
  let ?d = "\<lparr>data_in = 10, data_out = 20, data_state = ''3''\<rparr>"
  have p: "dict_get [(''vpn1'', ?d)] ''vpn1'' = Some ?d"
    by (simp add: dict_get_def)
  have q: "data_state ?d \<notin> {''1'', ''2''}"
    by simp
  from unrecognized_status_code_raises_KeyError [OF p q] p q show ?thesis
    by simp
qed

text \<open>
  Claim C3.  For an item absent from the snapshot the check yields exactly one result,
  \<^verbatim>\<open>CRIT\<close> with the summary \<^verbatim>\<open>Tunnel '<item>' is missing\<close>, and no metric.  The claim
  adds that every other evaluation emits both metrics.  That holds of the present tunnels
  whose status code is \<^verbatim>\<open>1\<close> or \<^verbatim>\<open>2\<close> and whose counters convert to float, that is, are
  below \<open>2^1024 - 2^970\<close> in magnitude: each yields a result followed by both metrics.
  Every other present tunnel ends the evaluation with an exception, \<^verbatim>\<open>KeyError\<close> for
  another status code and \<^verbatim>\<open>OverflowError\<close> for a larger counter, and yields nothing.
  So the missing tunnel is the only evaluation that returns without metrics.
\<close>

theorem missing_tunnel_only_return_without_metrics:
  "(dict_get section item = None \<longrightarrow>
      check_fortigate_vpn_tunnel item section =
        ([Result CRIT (''Tunnel '' @ [CHR 0x27] @ item @ [CHR 0x27] @ '' is missing'')],
         None)) \<and>
   (\<forall>data. dict_get section item = Some data \<longrightarrow>
      (if data_state data \<in> {''1'', ''2''} \<and>
          \<bar>data_in data\<bar> < 2 ^ 1024 - 2 ^ 970 \<and> \<bar>data_out data\<bar> < 2 ^ 1024 - 2 ^ 970
       then \<exists>verdict summary.
              check_fortigate_vpn_tunnel item section =
                ([Result verdict summary, Metric ''in_octets'' (data_in data),
                  Metric ''out_octets'' (data_out data)], None)
       else check_fortigate_vpn_tunnel item section =
              ([], Some (if data_state data \<in> {''1'', ''2''} then OverflowError else KeyError))))"
proof (intro conjI impI allI)
  assume "dict_get section item = None"
  then show "check_fortigate_vpn_tunnel item section =
        ([Result CRIT (''Tunnel '' @ [CHR 0x27] @ item @ [CHR 0x27] @ '' is missing'')], None)"
    by (simp add: check_cases missing_summary_def)
next
  fix data
  assume present: "dict_get section item = Some data"
  show "if data_state data \<in> {''1'', ''2''} \<and>
          \<bar>data_in data\<bar> < 2 ^ 1024 - 2 ^ 970 \<and> \<bar>data_out data\<bar> < 2 ^ 1024 - 2 ^ 970
       then \<exists>verdict summary.
              check_fortigate_vpn_tunnel item section =
                ([Result verdict summary, Metric ''in_octets'' (data_in data),
                  Metric ''out_octets'' (data_out data)], None)
       else check_fortigate_vpn_tunnel item section =
              ([], Some (if data_state data \<in> {''1'', ''2''} then OverflowError else KeyError))"
  proof (cases "data_state data \<in> {''1'', ''2''}")
    case False
    with present have "check_fortigate_vpn_tunnel item section = ([], Some KeyError)"
      by (simp add: check_cases status_map_lookup)
    with False show ?thesis
      by (simp only: simp_thms if_False)
  next
    case known: True
    then obtain label where
      label: "dict_get fortigate_ipsecvpn_tunnel_ent_status_map (data_state data) = Some label"
      by (auto simp: status_map_lookup)
    show ?thesis
    proof (cases "\<bar>data_in data\<bar> < 2 ^ 1024 - 2 ^ 970")
      case False
      from human_readable_bytes_out_of_range [OF False]
      have "check_fortigate_vpn_tunnel item section = ([], Some OverflowError)"
        using present label by (simp add: check_cases)
      with known False show ?thesis
        by (simp only: simp_thms if_False if_True)
    next
      case in_ok: True
      from human_readable_bytes_in_range [OF in_ok] obtain hin where
        hin: "human_readable_bytes (data_in data) = Inr hin" .
      show ?thesis
      proof (cases "\<bar>data_out data\<bar> < 2 ^ 1024 - 2 ^ 970")
        case False
        from human_readable_bytes_out_of_range [OF False]
        have "check_fortigate_vpn_tunnel item section = ([], Some OverflowError)"
          using present label hin by (simp add: check_cases)
        with known False show ?thesis
          by (simp only: simp_thms if_False if_True)
      next
        case out_ok: True
        from human_readable_bytes_in_range [OF out_ok] obtain hout where
          hout: "human_readable_bytes (data_out data) = Inr hout" .
        from present label hin hout
        have "\<exists>verdict summary. check_fortigate_vpn_tunnel item section =
                ([Result verdict summary, Metric ''in_octets'' (data_in data),
                  Metric ''out_octets'' (data_out data)], None)"
          by (simp add: check_cases)
        with known in_ok out_ok show ?thesis
          by (simp only: simp_thms if_True)
      qed
    qed
  qed
qed

theorem missing_tunnel_only_return_without_metrics_witness:
  "dict_get [(''A'', \<lparr>data_in = 2048, data_out = 1536, data_state = ''2''\<rparr>)] ''X'' = None \<and>
   check_fortigate_vpn_tunnel ''X''
     [(''A'', \<lparr>data_in = 2048, data_out = 1536, data_state = ''2''\<rparr>)] =
     ([Result CRIT (''Tunnel '' @ [CHR 0x27] @ ''X'' @ [CHR 0x27] @ '' is missing'')], None) \<and>
   dict_get [(''A'', \<lparr>data_in = 2048, data_out = 1536, data_state = ''2''\<rparr>)] ''A'' =
     Some \<lparr>data_in = 2048, data_out = 1536, data_state = ''2''\<rparr> \<and>
   data_state \<lparr>data_in = 2048, data_out = 1536, data_state = ''2''\<rparr> \<in> {''1'', ''2''} \<and>
   \<bar>data_in \<lparr>data_in = 2048, data_out = 1536, data_state = ''2''\<rparr>\<bar> < 2 ^ 1024 - 2 ^ 970 \<and>
   \<bar>data_out \<lparr>data_in = 2048, data_out = 1536, data_state = ''2''\<rparr>\<bar> < 2 ^ 1024 - 2 ^ 970 \<and>
   (\<exists>verdict summary.
      check_fortigate_vpn_tunnel ''A''
        [(''A'', \<lparr>data_in = 2048, data_out = 1536, data_state = ''2''\<rparr>)] =
        ([Result verdict summary, Metric ''in_octets'' 2048, Metric ''out_octets'' 1536], None)) \<and>
   dict_get [(''B'', \<lparr>data_in = 2048, data_out = 1536, data_state = ''5''\<rparr>)] ''B'' =
     Some \<lparr>data_in = 2048, data_out = 1536, data_state = ''5''\<rparr> \<and>
   data_state \<lparr>data_in = 2048, data_out = 1536, data_state = ''5''\<rparr> \<notin> {''1'', ''2''} \<and>
   check_fortigate_vpn_tunnel ''B''
     [(''B'', \<lparr>data_in = 2048, data_out = 1536, data_state = ''5''\<rparr>)] = ([], Some KeyError)"
proof -
  let ?d = "\<lparr>data_in = 2048, data_out = 1536, data_state = ''2''\<rparr>"
  let ?s = "[(''A'', ?d)]"
  let ?d' = "\<lparr>data_in = 2048, data_out = 1536, data_state = ''5''\<rparr>"
  let ?s' = "[(''B'', ?d')]"
  note claim = missing_tunnel_only_return_without_metrics
  have absent: "dict_get ?s ''X'' = None"
    by (simp add: dict_get_def)
  have missing: "check_fortigate_vpn_tunnel ''X'' ?s =
     ([Result CRIT (''Tunnel '' @ [CHR 0x27] @ ''X'' @ [CHR 0x27] @ '' is missing'')], None)"
    by (rule claim [of ?s "''X''", THEN conjunct1, THEN mp, OF absent])
  have present: "dict_get ?s ''A'' = Some ?d"
    by (simp add: dict_get_def)
  have known: "data_state ?d \<in> {''1'', ''2''}"
    by simp
  have small_in: "\<bar>data_in ?d\<bar> < 2 ^ 1024 - 2 ^ 970"
    by simp
  have small_out: "\<bar>data_out ?d\<bar> < 2 ^ 1024 - 2 ^ 970"
    by simp
  from known small_in small_out have good:
    "data_state ?d \<in> {''1'', ''2''} \<and>
     \<bar>data_in ?d\<bar> < 2 ^ 1024 - 2 ^ 970 \<and> \<bar>data_out ?d\<bar> < 2 ^ 1024 - 2 ^ 970"
    by (intro conjI)
  from claim [of ?s "''A''", THEN conjunct2, THEN spec, THEN mp, OF present]
  have "\<exists>verdict summary. check_fortigate_vpn_tunnel ''A'' ?s =
      ([Result verdict summary, Metric ''in_octets'' (data_in ?d),
        Metric ''out_octets'' (data_out ?d)], None)"
    by (simp only: good if_True)
  then have both: "\<exists>verdict summary. check_fortigate_vpn_tunnel ''A'' ?s =
      ([Result verdict summary, Metric ''in_octets'' 2048, Metric ''out_octets'' 1536], None)"
    by simp
  have present': "dict_get ?s' ''B'' = Some ?d'"
    by (simp add: dict_get_def)
  have unknown: "data_state ?d' \<notin> {''1'', ''2''}"
    by simp
  then have bad:
    "\<not> (data_state ?d' \<in> {''1'', ''2''} \<and>
        \<bar>data_in ?d'\<bar> < 2 ^ 1024 - 2 ^ 970 \<and> \<bar>data_out ?d'\<bar> < 2 ^ 1024 - 2 ^ 970)"
    by (simp only: simp_thms)
  from claim [of ?s' "''B''", THEN conjunct2, THEN spec, THEN mp, OF present']
  have "check_fortigate_vpn_tunnel ''B'' ?s' =
      ([], Some (if data_state ?d' \<in> {''1'', ''2''} then OverflowError else KeyError))"
    by (simp only: bad if_False)
  then have raises: "check_fortigate_vpn_tunnel ''B'' ?s' = ([], Some KeyError)"
    by simp
  show ?thesis
    by (intro conjI)
      (rule absent missing present known small_in small_out both present' unknown raises)+
qed

text \<open>
  A present tunnel with the status code \<^verbatim>\<open>3\<close>: the evaluation is not that of a missing
  tunnel, and it yields no metric.
\<close>

theorem present_tunnel_without_metrics_counterexample:
  "dict_get [(''vpn1'', \<lparr>data_in = 2048, data_out = 1536, data_state = ''3''\<rparr>)] ''vpn1'' =
     Some \<lparr>data_in = 2048, data_out = 1536, data_state = ''3''\<rparr> \<and>
   check_fortigate_vpn_tunnel ''vpn1''
     [(''vpn1'', \<lparr>data_in = 2048, data_out = 1536, data_state = ''3''\<rparr>)] =
     ([], Some KeyError) \<and>
   filter is_metric (fst (check_fortigate_vpn_tunnel ''vpn1''
     [(''vpn1'', \<lparr>data_in = 2048, data_out = 1536, data_state = ''3''\<rparr>)])) = []"
  by (simp add: check_cases dict_get_def fortigate_ipsecvpn_tunnel_ent_status_map_def)

text \<open>
  Claim C4.  The claim is that every tunnel present in the snapshot gets the verdict of
  its status label, \<^verbatim>\<open>OK\<close> for code \<^verbatim>\<open>2\<close> and \<^verbatim>\<open>CRIT\<close> for code \<^verbatim>\<open>1\<close>, with the
  summary \<^verbatim>\<open>Status: <label>, In: <in>, Out: <out>\<close>.  It holds of every present tunnel
  whose counters convert to float, that is, are below \<open>2^1024 - 2^970\<close> in magnitude: the
  result has that verdict and a summary of that form, whose \<^verbatim>\<open>In\<close> and \<^verbatim>\<open>Out\<close> fields are
  the strings that \<^verbatim>\<open>human_readable_bytes\<close> renders for the counters, and it is followed
  by the two metrics.
\<close>

theorem present_tunnel_verdict_and_summary:
  assumes "dict_get section item = Some data"
    and "\<bar>data_in data\<bar> < 2 ^ 1024 - 2 ^ 970"
    and "\<bar>data_out data\<bar> < 2 ^ 1024 - 2 ^ 970"
  shows "\<exists>fin fout.
           (\<forall>a. human_readable_bytes (data_in data) = Inr (Some a) \<longrightarrow> fin = a) \<and>
           (\<forall>b. human_readable_bytes (data_out data) = Inr (Some b) \<longrightarrow> fout = b) \<and>
           (data_state data = ''2'' \<longrightarrow>
              check_fortigate_vpn_tunnel item section =
                ([Result OK (''Status: up, In: '' @ fin @ '', Out: '' @ fout),
                  Metric ''in_octets'' (data_in data),
                  Metric ''out_octets'' (data_out data)], None)) \<and>
           (data_state data = ''1'' \<longrightarrow>
              check_fortigate_vpn_tunnel item section =
                ([Result CRIT (''Status: down, In: '' @ fin @ '', Out: '' @ fout),
                  Metric ''in_octets'' (data_in data),
                  Metric ''out_octets'' (data_out data)], None))"
proof -
  from human_readable_bytes_in_range [OF assms(2)] obtain hin where
    hin: "human_readable_bytes (data_in data) = Inr hin" .
  from human_readable_bytes_in_range [OF assms(3)] obtain hout where
    hout: "human_readable_bytes (data_out data) = Inr hout" .
  have "(\<forall>a. human_readable_bytes (data_in data) = Inr (Some a) \<longrightarrow> str_optional hin = a)"
    using hin by auto
  moreover have
    "(\<forall>b. human_readable_bytes (data_out data) = Inr (Some b) \<longrightarrow> str_optional hout = b)"
    using hout by auto
  moreover have "data_state data = ''2'' \<longrightarrow>
      check_fortigate_vpn_tunnel item section =
        ([Result OK (''Status: up, In: '' @ str_optional hin @ '', Out: '' @ str_optional hout),
          Metric ''in_octets'' (data_in data),
          Metric ''out_octets'' (data_out data)], None)"
    using assms(1) hin hout
    by (simp add: check_cases status_map_lookup state_map_lookup status_summary_def)
  moreover have "data_state data = ''1'' \<longrightarrow>
      check_fortigate_vpn_tunnel item section =
        ([Result CRIT (''Status: down, In: '' @ str_optional hin @ '', Out: '' @ str_optional hout),
          Metric ''in_octets'' (data_in data),
          Metric ''out_octets'' (data_out data)], None)"
    using assms(1) hin hout
    by (simp add: check_cases status_map_lookup state_map_lookup status_summary_def)
  ultimately show ?thesis
    by blast
qed

theorem present_tunnel_verdict_and_summary_witness:
  "dict_get [(''vpn1'', \<lparr>data_in = 2048, data_out = 1536, data_state = ''1''\<rparr>)] ''vpn1'' =
     Some \<lparr>data_in = 2048, data_out = 1536, data_state = ''1''\<rparr> \<and>
   \<bar>data_in \<lparr>data_in = 2048, data_out = 1536, data_state = ''1''\<rparr>\<bar> < 2 ^ 1024 - 2 ^ 970 \<and>
   \<bar>data_out \<lparr>data_in = 2048, data_out = 1536, data_state = ''1''\<rparr>\<bar> < 2 ^ 1024 - 2 ^ 970 \<and>
   human_readable_bytes 2048 = Inr (Some ''2.00 KB'') \<and>
   human_readable_bytes 1536 = Inr (Some ''1.50 KB'') \<and>
   check_fortigate_vpn_tunnel ''vpn1''
     [(''vpn1'', \<lparr>data_in = 2048, data_out = 1536, data_state = ''1''\<rparr>)] =
     ([Result CRIT ''Status: down, In: 2.00 KB, Out: 1.50 KB'',
       Metric ''in_octets'' 2048, Metric ''out_octets'' 1536], None)"
proof -
  let ?d = "\<lparr>data_in = 2048, data_out = 1536, data_state = ''1''\<rparr>"
  have p: "dict_get [(''vpn1'', ?d)] ''vpn1'' = Some ?d"
    by (simp add: dict_get_def)
  have small_in: "\<bar>data_in ?d\<bar> < 2 ^ 1024 - 2 ^ 970"
    by simp
  have small_out: "\<bar>data_out ?d\<bar> < 2 ^ 1024 - 2 ^ 970"
    by simp
  have a: "human_readable_bytes (data_in ?d) = Inr (Some ''2.00 KB'')"
    by (simp add: hrb_eval)
  have b: "human_readable_bytes (data_out ?d) = Inr (Some ''1.50 KB'')"
    by (simp add: hrb_eval)
  from present_tunnel_verdict_and_summary [OF p small_in small_out]
  obtain fin fout where
    fin: "\<forall>a. human_readable_bytes (data_in ?d) = Inr (Some a) \<longrightarrow> fin = a" and
    fout: "\<forall>b. human_readable_bytes (data_out ?d) = Inr (Some b) \<longrightarrow> fout = b" and
    down: "data_state ?d = ''1'' \<longrightarrow>
      check_fortigate_vpn_tunnel ''vpn1'' [(''vpn1'', ?d)] =
        ([Result CRIT (''Status: down, In: '' @ fin @ '', Out: '' @ fout),
          Metric ''in_octets'' (data_in ?d), Metric ''out_octets'' (data_out ?d)], None)"
    by (elim exE conjE)
  have fin': "fin = ''2.00 KB''"
    by (rule fin [rule_format, OF a])
  have fout': "fout = ''1.50 KB''"
    by (rule fout [rule_format, OF b])
  from down have run: "check_fortigate_vpn_tunnel ''vpn1'' [(''vpn1'', ?d)] =
     ([Result CRIT ''Status: down, In: 2.00 KB, Out: 1.50 KB'',
       Metric ''in_octets'' 2048, Metric ''out_octets'' 1536], None)"
    by (simp add: fin' fout')
  from a have a': "human_readable_bytes 2048 = Inr (Some ''2.00 KB'')"
    by simp
  from b have b': "human_readable_bytes 1536 = Inr (Some ''1.50 KB'')"
    by simp
  show ?thesis
    by (intro conjI) (rule p small_in small_out a' b' run)+
qed

text \<open>
  The evaluation of a present tunnel with status code \<^verbatim>\<open>2\<close> whose inbound counter is
  \<open>2 ^ 1024\<close>: the counter cannot be converted to a float, the evaluation ends with
  \<^verbatim>\<open>OverflowError\<close> and yields no verdict.
\<close>

theorem present_tunnel_verdict_counterexample:
  "dict_get [(''vpn1'', \<lparr>data_in = 2 ^ 1024, data_out = 0, data_state = ''2''\<rparr>)] ''vpn1'' =
     Some \<lparr>data_in = 2 ^ 1024, data_out = 0, data_state = ''2''\<rparr> \<and>
   check_fortigate_vpn_tunnel ''vpn1''
     [(''vpn1'', \<lparr>data_in = 2 ^ 1024, data_out = 0, data_state = ''2''\<rparr>)] =
     ([], Some OverflowError)"
proof -
  let ?d = "\<lparr>data_in = 2 ^ 1024, data_out = 0, data_state = ''2''\<rparr>"
  have present: "dict_get [(''vpn1'', ?d)] ''vpn1'' = Some ?d"
    by (simp add: dict_get_def)
  have label: "dict_get fortigate_ipsecvpn_tunnel_ent_status_map (data_state ?d) = Some ''up''"
    by (simp add: status_map_lookup)
  have overflow: "human_readable_bytes (data_in ?d) = Inl OverflowError"
    by (simp add: hrb_eval bit_length.simps)
  have "check_fortigate_vpn_tunnel ''vpn1'' [(''vpn1'', ?d)] = ([], Some OverflowError)"
    by (rule check_raises [OF present label overflow])
  with present show ?thesis ..
qed

text \<open>
  Claim C5.  For a tunnel present in the snapshot whose evaluation returns, the metrics
  yielded are exactly \<^verbatim>\<open>in_octets\<close> and \<^verbatim>\<open>out_octets\<close>, in this order, and their values
  are the integer counters stored in the snapshot, whatever the formatter printed.
\<close>

theorem metrics_equal_raw_counters:
  assumes "dict_get section item = Some data"
    and "check_fortigate_vpn_tunnel item section = (out, None)"
  shows "filter is_metric out =
           [Metric ''in_octets'' (data_in data), Metric ''out_octets'' (data_out data)]"
  using assms by (auto simp: check_cases split: option.splits sum.splits)

theorem metrics_equal_raw_counters_witness:
  "dict_get [(''vpn1'', \<lparr>data_in = 1234567, data_out = 1029, data_state = ''1''\<rparr>)] ''vpn1''
     = Some \<lparr>data_in = 1234567, data_out = 1029, data_state = ''1''\<rparr> \<and>
   check_fortigate_vpn_tunnel ''vpn1''
     [(''vpn1'', \<lparr>data_in = 1234567, data_out = 1029, data_state = ''1''\<rparr>)] =
     ([Result CRIT ''Status: down, In: 1.18 MB, Out: 1.00 KB'',
       Metric ''in_octets'' 1234567, Metric ''out_octets'' 1029], None) \<and>
   filter is_metric [Result CRIT ''Status: down, In: 1.18 MB, Out: 1.00 KB'',
       Metric ''in_octets'' 1234567, Metric ''out_octets'' 1029] =
     [Metric ''in_octets'' 1234567, Metric ''out_octets'' 1029]"
proof -
  let ?d = "\<lparr>data_in = 1234567, data_out = 1029, data_state = ''1''\<rparr>"
  let ?out = "[Result CRIT ''Status: down, In: 1.18 MB, Out: 1.00 KB'',
       Metric ''in_octets'' 1234567, Metric ''out_octets'' 1029]"
  have p: "dict_get [(''vpn1'', ?d)] ''vpn1'' = Some ?d"
    by (simp add: dict_get_def)
  have q: "check_fortigate_vpn_tunnel ''vpn1'' [(''vpn1'', ?d)] = (?out, None)"
    by (simp add: check_cases dict_get_def fortigate_ipsecvpn_tunnel_ent_status_map_def
        state_map_def status_summary_def hrb_eval)
  from metrics_equal_raw_counters [OF p q] p q show ?thesis
    by simp
qed

text \<open>
  Claim C10.  The output of one evaluation is all or nothing.  An evaluation that ends
  with an exception has yielded nothing, and an unrecognized status code of a present
  tunnel ends it so; an evaluation that returns has yielded either the single result of
  the missing tunnel or a result followed by both metrics.
\<close>

theorem check_output_all_or_nothing:
  "(snd (check_fortigate_vpn_tunnel item section) \<noteq> None \<longrightarrow>
      fst (check_fortigate_vpn_tunnel item section) = []) \<and>
   (\<forall>data. dict_get section item = Some data \<and>
       dict_get fortigate_ipsecvpn_tunnel_ent_status_map (data_state data) = None \<longrightarrow>
       snd (check_fortigate_vpn_tunnel item section) \<noteq> None) \<and>
   (snd (check_fortigate_vpn_tunnel item section) = None \<longrightarrow>
      (dict_get section item = None \<and>
         (\<exists>summary. fst (check_fortigate_vpn_tunnel item section) = [Result CRIT summary])) \<or>
      (\<exists>data verdict summary. dict_get section item = Some data \<and>
         fst (check_fortigate_vpn_tunnel item section) =
           [Result verdict summary, Metric ''in_octets'' (data_in data),
            Metric ''out_octets'' (data_out data)]))"
  by (auto simp: check_cases split: option.splits sum.splits)

theorem check_output_all_or_nothing_witness:
  "dict_get [(''vpn1'', \<lparr>data_in = 4096, data_out = 0, data_state = ''7''\<rparr>)] ''vpn1''
     = Some \<lparr>data_in = 4096, data_out = 0, data_state = ''7''\<rparr> \<and>
   dict_get fortigate_ipsecvpn_tunnel_ent_status_map
     (data_state \<lparr>data_in = 4096, data_out = 0, data_state = ''7''\<rparr>) = None \<and>
   snd (check_fortigate_vpn_tunnel ''vpn1''
     [(''vpn1'', \<lparr>data_in = 4096, data_out = 0, data_state = ''7''\<rparr>)]) \<noteq> None \<and>
   fst (check_fortigate_vpn_tunnel ''vpn1''
     [(''vpn1'', \<lparr>data_in = 4096, data_out = 0, data_state = ''7''\<rparr>)]) = []"
proof -
  let ?d = "\<lparr>data_in = 4096, data_out = 0, data_state = ''7''\<rparr>"
  have p: "dict_get [(''vpn1'', ?d)] ''vpn1'' = Some ?d"
    by (simp add: dict_get_def)
  have q: "dict_get fortigate_ipsecvpn_tunnel_ent_status_map (data_state ?d) = None"
    by (simp add: status_map_lookup)
  from check_output_all_or_nothing [of "''vpn1''" "[(''vpn1'', ?d)]"] p q
  have "snd (check_fortigate_vpn_tunnel ''vpn1'' [(''vpn1'', ?d)]) \<noteq> None \<and>
        fst (check_fortigate_vpn_tunnel ''vpn1'' [(''vpn1'', ?d)]) = []"
    by blast
  with p q show ?thesis
    by blast
qed

section \<open>Discovery\<close>

text \<open>
  Claim C8.  Discovery yields exactly the keys of the snapshot: the services are the
  keys, an item is discovered if and only if the snapshot has it, nothing is filtered or
  added, and each key is yielded once.  As a function of the snapshot the result is the
  same whenever the snapshot is.
\<close>

theorem discover_yields_exactly_the_keys:
  "set (discover_fortigate_vpn_tunnel section) = Service ` set (dict_keys section) \<and>
   (\<forall>name. Service name \<in> set (discover_fortigate_vpn_tunnel section)
        \<longleftrightarrow> dict_get section name \<noteq> None) \<and>
   length (discover_fortigate_vpn_tunnel section) = length (dict_keys section) \<and>
   distinct (discover_fortigate_vpn_tunnel section) = distinct (dict_keys section)"
  by (auto simp: discover_fortigate_vpn_tunnel_def dict_keys_def dict_get_def
      distinct_map inj_on_def map_of_eq_None_iff image_iff)

section \<open>The parser\<close>

lemma dict_get_dict_set:
  "dict_get (dict_set k v d) k' = (if k' = k then Some v else dict_get d k')"
  by (induction d) (auto simp: dict_get_def)

lemma dict_keys_dict_set:
  "set (dict_keys (dict_set k v d)) = insert k (set (dict_keys d))"
proof (induction d)
  case Nil
  show ?case by (simp add: dict_keys_def)
next
  case (Cons p d)
  then show ?case by (cases p) (auto simp: dict_keys_def)
qed

lemma distinct_dict_set:
  "distinct (dict_keys d) \<Longrightarrow> distinct (dict_keys (dict_set k v d))"
proof (induction d)
  case Nil
  show ?case by (simp add: dict_keys_def)
next
  case (Cons p d)
  obtain k' v' where p: "p = (k', v')" by (cases p)
  from Cons.prems have k': "k' \<notin> set (dict_keys d)" and d: "distinct (dict_keys d)"
    by (simp_all add: p dict_keys_def)
  show ?case
  proof (cases "k' = k")
    case True
    with Cons.prems show ?thesis by (simp add: p dict_keys_def)
  next
    case False
    from k' False have "k' \<notin> set (dict_keys (dict_set k v d))"
      by (simp add: dict_keys_dict_set)
    with Cons.IH [OF d] False show ?thesis
      by (simp add: p dict_keys_def)
  qed
qed

lemma well_formed_row_iff:
  "well_formed_row py_int row \<longleftrightarrow>
     (\<exists>n i out s a b. row = [n, i, out, s] \<and> py_int i = Some a \<and> py_int out = Some b)"
  by (cases "(py_int, row)" rule: well_formed_row.cases) auto

lemma parse_loop_step:
  assumes "py_int i = Some a" and "py_int out = Some b"
  shows "parse_loop py_int ([n, i, out, s] # rest) acc =
           parse_loop py_int rest
             (dict_set n \<lparr>data_in = a, data_out = b, data_state = s\<rparr> acc)"
  using assms by simp

lemma parse_loop_malformed:
  "\<not> well_formed_row py_int row \<Longrightarrow> parse_loop py_int (row # rest) acc = Inl ValueError"
  by (cases "(py_int, row)" rule: well_formed_row.cases) (auto split: option.splits)

lemma parse_loop_fails:
  "\<exists>row \<in> set rows. \<not> well_formed_row py_int row \<Longrightarrow>
     parse_loop py_int rows acc = Inl ValueError"
proof (induction rows arbitrary: acc)
  case Nil
  then show ?case by simp
next
  case (Cons row rows)
  show ?case
  proof (cases "well_formed_row py_int row")
    case False
    then show ?thesis by (rule parse_loop_malformed)
  next
    case True
    then obtain n i out s a b where
      row: "row = [n, i, out, s]" and a: "py_int i = Some a" and b: "py_int out = Some b"
      unfolding well_formed_row_iff by blast
    from True Cons.prems have "\<exists>r \<in> set rows. \<not> well_formed_row py_int r"
      by auto
    then show ?thesis
      unfolding row parse_loop_step [OF a b] by (rule Cons.IH)
  qed
qed

lemma parse_loop_succeeds:
  "\<forall>row \<in> set rows. well_formed_row py_int row \<Longrightarrow>
     \<exists>parsed. parse_loop py_int rows acc = Inr parsed"
proof (induction rows arbitrary: acc)
  case Nil
  then show ?case by simp
next
  case (Cons row rows)
  then obtain n i out s a b where
    row: "row = [n, i, out, s]" and a: "py_int i = Some a" and b: "py_int out = Some b"
    unfolding well_formed_row_iff by auto
  from Cons.prems have "\<forall>r \<in> set rows. well_formed_row py_int r"
    by simp
  then show ?case
    unfolding row parse_loop_step [OF a b] by (rule Cons.IH)
qed

text \<open>A name that no row carries keeps the value of the accumulator.\<close>

lemma parse_loop_other:
  assumes "parse_loop py_int rows acc = Inr parsed"
    and "\<forall>row \<in> set rows. hd row \<noteq> name"
  shows "dict_get parsed name = dict_get acc name"
  using assms
proof (induction rows arbitrary: acc)
  case Nil
  then show ?case by simp
next
  case (Cons row rows)
  from Cons.prems(1) have "well_formed_row py_int row"
    using parse_loop_malformed [of py_int row rows acc] by auto
  then obtain n i out s a b where
    row: "row = [n, i, out, s]" and a: "py_int i = Some a" and b: "py_int out = Some b"
    unfolding well_formed_row_iff by auto
  let ?acc = "dict_set n \<lparr>data_in = a, data_out = b, data_state = s\<rparr> acc"
  from Cons.prems(1) have run: "parse_loop py_int rows ?acc = Inr parsed"
    unfolding row parse_loop_step [OF a b] .
  from Cons.prems(2) have rest: "\<forall>r \<in> set rows. hd r \<noteq> name" and n: "n \<noteq> name"
    by (simp_all add: row)
  from Cons.IH [OF run rest] n show ?case
    by (simp add: dict_get_dict_set)
qed

lemma parse_loop_append:
  "parse_loop py_int (xs @ ys) acc =
     (case parse_loop py_int xs acc of Inl e \<Rightarrow> Inl e | Inr p \<Rightarrow> parse_loop py_int ys p)"
proof (induction xs arbitrary: acc)
  case Nil
  then show ?case by simp
next
  case (Cons row xs)
  show ?case
  proof (cases "well_formed_row py_int row")
    case False
    show ?thesis
      by (simp only: append_Cons parse_loop_malformed [OF False] sum.case)
  next
    case True
    then obtain n i out s a b where
      row: "row = [n, i, out, s]" and a: "py_int i = Some a" and b: "py_int out = Some b"
      unfolding well_formed_row_iff by auto
    show ?thesis
      using Cons.IH by (simp add: row a b)
  qed
qed

text \<open>The last row that carries a name decides its entry.\<close>

lemma parse_loop_last_row:
  assumes run: "parse_loop py_int (before @ [name, i, out, s] # after) acc = Inr parsed"
    and a: "py_int i = Some a" and b: "py_int out = Some b"
    and after: "\<forall>row \<in> set after. hd row \<noteq> name"
  shows "dict_get parsed name = Some \<lparr>data_in = a, data_out = b, data_state = s\<rparr>"
proof -
  from run obtain p where
    p: "parse_loop py_int before acc = Inr p" and
    rest: "parse_loop py_int ([name, i, out, s] # after) p = Inr parsed"
    by (auto simp: parse_loop_append split: sum.splits)
  let ?p = "dict_set name \<lparr>data_in = a, data_out = b, data_state = s\<rparr> p"
  from rest have "parse_loop py_int after ?p = Inr parsed"
    unfolding parse_loop_step [OF a b] .
  from parse_loop_other [OF this after] show ?thesis
    by (simp add: dict_get_dict_set)
qed

text \<open>Every entry of the result comes from the accumulator or from a row.\<close>

lemma parse_loop_provenance:
  assumes "parse_loop py_int rows acc = Inr parsed"
    and "dict_get parsed name = Some data"
  shows "dict_get acc name = Some data \<or>
         (\<exists>i out. [name, i, out, data_state data] \<in> set rows \<and>
            py_int i = Some (data_in data) \<and> py_int out = Some (data_out data))"
  using assms
proof (induction rows arbitrary: acc)
  case Nil
  then show ?case by simp
next
  case (Cons row rows)
  from Cons.prems(1) have "well_formed_row py_int row"
    using parse_loop_malformed [of py_int row rows acc] by auto
  then obtain n i out s a b where
    row: "row = [n, i, out, s]" and a: "py_int i = Some a" and b: "py_int out = Some b"
    unfolding well_formed_row_iff by auto
  let ?acc = "dict_set n \<lparr>data_in = a, data_out = b, data_state = s\<rparr> acc"
  from Cons.prems(1) have run: "parse_loop py_int rows ?acc = Inr parsed"
    unfolding row parse_loop_step [OF a b] .
  from Cons.IH [OF run Cons.prems(2)] show ?case
  proof
    assume acc: "dict_get ?acc name = Some data"
    show ?thesis
    proof (cases "name = n")
      case True
      with acc have "data = \<lparr>data_in = a, data_out = b, data_state = s\<rparr>"
        by (simp add: dict_get_dict_set)
      with True a b have "[name, i, out, data_state data] \<in> set (row # rows) \<and>
          py_int i = Some (data_in data) \<and> py_int out = Some (data_out data)"
        by (simp add: row)
      then show ?thesis by blast
    next
      case False
      with acc show ?thesis by (simp add: dict_get_dict_set)
    qed
  next
    assume "\<exists>i out. [name, i, out, data_state data] \<in> set rows \<and>
            py_int i = Some (data_in data) \<and> py_int out = Some (data_out data)"
    then show ?thesis by auto
  qed
qed

lemma parse_loop_keys:
  assumes "parse_loop py_int rows acc = Inr parsed"
  shows "set (dict_keys parsed) = set (dict_keys acc) \<union> hd ` set rows"
  using assms
proof (induction rows arbitrary: acc)
  case Nil
  then show ?case by simp
next
  case (Cons row rows)
  from Cons.prems(1) have "well_formed_row py_int row"
    using parse_loop_malformed [of py_int row rows acc] by auto
  then obtain n i out s a b where
    row: "row = [n, i, out, s]" and a: "py_int i = Some a" and b: "py_int out = Some b"
    unfolding well_formed_row_iff by auto
  let ?acc = "dict_set n \<lparr>data_in = a, data_out = b, data_state = s\<rparr> acc"
  from Cons.prems(1) have run: "parse_loop py_int rows ?acc = Inr parsed"
    unfolding row parse_loop_step [OF a b] .
  from Cons.IH [OF run] show ?case
    by (auto simp: dict_keys_dict_set row)
qed

lemma parse_loop_distinct:
  assumes "parse_loop py_int rows acc = Inr parsed" and "distinct (dict_keys acc)"
  shows "distinct (dict_keys parsed)"
  using assms
proof (induction rows arbitrary: acc)
  case Nil
  then show ?case by simp
next
  case (Cons row rows)
  from Cons.prems(1) have "well_formed_row py_int row"
    using parse_loop_malformed [of py_int row rows acc] by auto
  then obtain n i out s a b where
    row: "row = [n, i, out, s]" and a: "py_int i = Some a" and b: "py_int out = Some b"
    unfolding well_formed_row_iff by auto
  let ?acc = "dict_set n \<lparr>data_in = a, data_out = b, data_state = s\<rparr> acc"
  from Cons.prems(1) have run: "parse_loop py_int rows ?acc = Inr parsed"
    unfolding row parse_loop_step [OF a b] .
  from Cons.IH [OF run] Cons.prems(2) show ?case
    by (simp add: distinct_dict_set)
qed

text \<open>
  Claim C6.  When some row has an inbound or outbound field that \<^verbatim>\<open>int\<close> rejects, the
  parse raises \<^verbatim>\<open>ValueError\<close> and returns no section at all.  When every row is well
  formed the parse returns a section: its keys are the names of the rows, and every
  entry holds the converted counters and, unchanged, the status field of a row of that
  name, whatever that field is.
\<close>

theorem parse_malformed_fails_well_formed_succeeds:
  "((\<exists>name i out s. [name, i, out, s] \<in> set string_table \<and>
        (py_int i = None \<or> py_int out = None)) \<longrightarrow>
      parse_fortigate_vpn_tunnel py_int string_table = Inl ValueError) \<and>
   ((\<forall>row \<in> set string_table. well_formed_row py_int row) \<longrightarrow>
      (\<exists>parsed. parse_fortigate_vpn_tunnel py_int string_table = Inr parsed \<and>
         set (dict_keys parsed) = hd ` set string_table \<and>
         (\<forall>name data. dict_get parsed name = Some data \<longrightarrow>
            (\<exists>i out. [name, i, out, data_state data] \<in> set string_table \<and>
               py_int i = Some (data_in data) \<and> py_int out = Some (data_out data)))))"
proof (intro conjI impI)
  assume "\<exists>name i out s. [name, i, out, s] \<in> set string_table \<and>
            (py_int i = None \<or> py_int out = None)"
  then obtain name i out s where
    row: "[name, i, out, s] \<in> set string_table" and
    bad: "py_int i = None \<or> py_int out = None"
    by blast
  from bad have "\<not> well_formed_row py_int [name, i, out, s]"
    by auto
  with row have "\<exists>row \<in> set string_table. \<not> well_formed_row py_int row"
    by blast
  then show "parse_fortigate_vpn_tunnel py_int string_table = Inl ValueError"
    unfolding parse_fortigate_vpn_tunnel_def by (rule parse_loop_fails)
next
  assume wf: "\<forall>row \<in> set string_table. well_formed_row py_int row"
  from parse_loop_succeeds [OF wf] obtain parsed where
    run: "parse_loop py_int string_table [] = Inr parsed"
    by blast
  have keys: "set (dict_keys parsed) = hd ` set string_table"
    using parse_loop_keys [OF run] by (simp add: dict_keys_def)
  have "\<exists>i out. [name, i, out, data_state data] \<in> set string_table \<and>
          py_int i = Some (data_in data) \<and> py_int out = Some (data_out data)"
    if "dict_get parsed name = Some data" for name data
    using parse_loop_provenance [OF run that] by (simp add: dict_get_def)
  with run keys show "\<exists>parsed. parse_fortigate_vpn_tunnel py_int string_table = Inr parsed \<and>
         set (dict_keys parsed) = hd ` set string_table \<and>
         (\<forall>name data. dict_get parsed name = Some data \<longrightarrow>
            (\<exists>i out. [name, i, out, data_state data] \<in> set string_table \<and>
               py_int i = Some (data_in data) \<and> py_int out = Some (data_out data)))"
    unfolding parse_fortigate_vpn_tunnel_def by blast
qed

lemma ascii_int_examples:
  "ascii_int ''10'' = Some 10" "ascii_int ''20'' = Some 20"
  "ascii_int ''2048'' = Some 2048" "ascii_int ''1536'' = Some 1536"
  "ascii_int ''7'' = Some 7" "ascii_int ''abc'' = None"
  by (simp_all add: digits_int_def is_digit_def digit_val_def)


theorem parse_malformed_fails_well_formed_succeeds_witness:
  "(\<exists>name i out s.
       [name, i, out, s] \<in> set [[''vpn1'', ''10'', ''20'', ''2''], [''vpn2'', ''abc'', ''7'', ''1'']] \<and>
       (ascii_int i = None \<or> ascii_int out = None)) \<and>
   parse_fortigate_vpn_tunnel ascii_int
     [[''vpn1'', ''10'', ''20'', ''2''], [''vpn2'', ''abc'', ''7'', ''1'']] = Inl ValueError \<and>
   list_all (well_formed_row ascii_int) [[''vpn1'', ''2048'', ''1536'', ''9'']] \<and>
   parse_fortigate_vpn_tunnel ascii_int [[''vpn1'', ''2048'', ''1536'', ''9'']] =
     Inr [(''vpn1'', \<lparr>data_in = 2048, data_out = 1536, data_state = ''9''\<rparr>)] \<and>
   set (dict_keys [(''vpn1'', \<lparr>data_in = 2048, data_out = 1536, data_state = ''9''\<rparr>)]) =
     hd ` set [[''vpn1'', ''2048'', ''1536'', ''9'']]"
proof -
  let ?bad = "[[''vpn1'', ''10'', ''20'', ''2''], [''vpn2'', ''abc'', ''7'', ''1'']]"
  let ?good = "[[''vpn1'', ''2048'', ''1536'', ''9'']]"
  let ?parsed = "[(''vpn1'', \<lparr>data_in = 2048, data_out = 1536, data_state = ''9''\<rparr>)]"
  note claim = parse_malformed_fails_well_formed_succeeds
  have "[''vpn2'', ''abc'', ''7'', ''1''] \<in> set ?bad \<and>
        (ascii_int ''abc'' = None \<or> ascii_int ''7'' = None)"
    by (simp add: ascii_int_examples del: ascii_int.simps)
  then have bad: "\<exists>name i out s. [name, i, out, s] \<in> set ?bad \<and>
       (ascii_int i = None \<or> ascii_int out = None)"
    by (intro exI)
  have fails: "parse_fortigate_vpn_tunnel ascii_int ?bad = Inl ValueError"
    by (rule claim [where string_table = ?bad and py_int = ascii_int,
          THEN conjunct1, THEN mp, OF bad])
  have good: "\<forall>row \<in> set ?good. well_formed_row ascii_int row"
    by (simp add: ascii_int_examples del: ascii_int.simps)
  have run: "parse_fortigate_vpn_tunnel ascii_int ?good = Inr ?parsed"
    by (simp add: parse_fortigate_vpn_tunnel_def ascii_int_examples del: ascii_int.simps)
  from claim [where string_table = ?good and py_int = ascii_int,
      THEN conjunct2, THEN mp, OF good]
  obtain parsed where "parse_fortigate_vpn_tunnel ascii_int ?good = Inr parsed"
    and "set (dict_keys parsed) = hd ` set ?good"
    by (elim exE conjE)
  with run have keys: "set (dict_keys ?parsed) = hd ` set ?good"
    by simp
  from good have good': "list_all (well_formed_row ascii_int) ?good"
    by (simp only: list_all_iff)
  show ?thesis
    by (intro conjI) (rule bad fails good' run keys)+
qed

text \<open>
  Claim C7.  In a table of well-formed rows, the row that comes last among the rows of
  one tunnel name decides the entry of that name: the section returned maps the name to
  the counters and the status of that row, and holds the name once.  Earlier rows of the
  same name are overwritten without an error.
\<close>

theorem parse_last_row_wins:
  assumes "\<forall>row \<in> set string_table. well_formed_row py_int row"
    and "string_table = before @ [name, ph2_in, ph2_out, ph2_state] # after"
    and "\<forall>row \<in> set after. hd row \<noteq> name"
    and "py_int ph2_in = Some i" and "py_int ph2_out = Some out"
  shows "\<exists>parsed. parse_fortigate_vpn_tunnel py_int string_table = Inr parsed \<and>
           dict_get parsed name = Some \<lparr>data_in = i, data_out = out, data_state = ph2_state\<rparr> \<and>
           distinct (dict_keys parsed)"
proof -
  from parse_loop_succeeds [OF assms(1)] obtain parsed where
    run: "parse_loop py_int string_table [] = Inr parsed"
    by blast
  from run have "parse_loop py_int (before @ [name, ph2_in, ph2_out, ph2_state] # after) []
      = Inr parsed"
    by (simp only: assms(2))
  from parse_loop_last_row [OF this assms(4) assms(5) assms(3)]
  have entry: "dict_get parsed name =
      Some \<lparr>data_in = i, data_out = out, data_state = ph2_state\<rparr>" .
  have "distinct (dict_keys parsed)"
    using parse_loop_distinct [OF run] by (simp add: dict_keys_def)
  with run entry show ?thesis
    unfolding parse_fortigate_vpn_tunnel_def by blast
qed

theorem parse_last_row_wins_witness:
  "list_all (well_formed_row ascii_int)
     [[''vpn1'', ''10'', ''20'', ''1''], [''vpn1'', ''2048'', ''1536'', ''2''],
      [''vpn2'', ''7'', ''7'', ''2'']] \<and>
   list_all (\<lambda>row. hd row \<noteq> ''vpn1'') [[''vpn2'', ''7'', ''7'', ''2'']] \<and>
   parse_fortigate_vpn_tunnel ascii_int
     [[''vpn1'', ''10'', ''20'', ''1''], [''vpn1'', ''2048'', ''1536'', ''2''],
      [''vpn2'', ''7'', ''7'', ''2'']] =
     Inr [(''vpn1'', \<lparr>data_in = 2048, data_out = 1536, data_state = ''2''\<rparr>),
          (''vpn2'', \<lparr>data_in = 7, data_out = 7, data_state = ''2''\<rparr>)] \<and>
   dict_get [(''vpn1'', \<lparr>data_in = 2048, data_out = 1536, data_state = ''2''\<rparr>),
          (''vpn2'', \<lparr>data_in = 7, data_out = 7, data_state = ''2''\<rparr>)] ''vpn1'' =
     Some \<lparr>data_in = 2048, data_out = 1536, data_state = ''2''\<rparr>"
proof -
  let ?before = "[[''vpn1'', ''10'', ''20'', ''1'']]"
  let ?after = "[[''vpn2'', ''7'', ''7'', ''2'']]"
  let ?table = "?before @ [''vpn1'', ''2048'', ''1536'', ''2''] # ?after"
  let ?parsed = "[(''vpn1'', \<lparr>data_in = 2048, data_out = 1536, data_state = ''2''\<rparr>),
          (''vpn2'', \<lparr>data_in = 7, data_out = 7, data_state = ''2''\<rparr>)]"
  have wf: "\<forall>row \<in> set ?table. well_formed_row ascii_int row"
    by (simp add: ascii_int_examples del: ascii_int.simps)
  have after: "\<forall>row \<in> set ?after. hd row \<noteq> ''vpn1''"
    by simp
  have run: "parse_fortigate_vpn_tunnel ascii_int ?table = Inr ?parsed"
    by (simp add: parse_fortigate_vpn_tunnel_def ascii_int_examples del: ascii_int.simps)
  from parse_last_row_wins [OF wf refl after ascii_int_examples(3) ascii_int_examples(4)]
  obtain parsed where "parse_fortigate_vpn_tunnel ascii_int ?table = Inr parsed"
    and "dict_get parsed ''vpn1'' =
      Some \<lparr>data_in = 2048, data_out = 1536, data_state = ''2''\<rparr>"
    by blast
  with run have "dict_get ?parsed ''vpn1'' =
      Some \<lparr>data_in = 2048, data_out = 1536, data_state = ''2''\<rparr>"
    by simp
  then have entry: "dict_get ?parsed ''vpn1'' =
      Some \<lparr>data_in = 2048, data_out = 1536, data_state = ''2''\<rparr>" .
  have wf': "list_all (well_formed_row ascii_int) ?table"
    by (simp add: ascii_int_examples del: ascii_int.simps)
  have after': "list_all (\<lambda>row. hd row \<noteq> ''vpn1'') ?after"
    by simp
  from run have run': "parse_fortigate_vpn_tunnel ascii_int
     [[''vpn1'', ''10'', ''20'', ''1''], [''vpn1'', ''2048'', ''1536'', ''2''],
      [''vpn2'', ''7'', ''7'', ''2'']] = Inr ?parsed"
    by simp
  from wf' have wf'': "list_all (well_formed_row ascii_int)
     [[''vpn1'', ''10'', ''20'', ''1''], [''vpn1'', ''2048'', ''1536'', ''2''],
      [''vpn2'', ''7'', ''7'', ''2'']]"
    by simp
  show ?thesis
    by (intro conjI) (rule wf'' after' run' entry)+
qed

end
